theory Spec2Isabelle
  imports Main
begin

section \<open>Characters and the stream written to standard output\<close>

text \<open>
  Source text is a \<open>std::string\<close>: a sequence of bytes, here a \<open>char list\<close>.
  The classification functions are those of \<open>cctype\<close> in the "C" locale, which
  hold of ASCII characters only. A byte above 127 is a negative \<open>char\<close> on the usual
  platforms, outside the domain C defines for these functions; the tables of the usual
  C libraries answer false for it, and so do the definitions here.
\<close>

definition isalpha :: "char \<Rightarrow> bool" where
  "isalpha c = (let n = (of_char c :: nat) in (65 \<le> n \<and> n \<le> 90) \<or> (97 \<le> n \<and> n \<le> 122))"

definition isdigit :: "char \<Rightarrow> bool" where
  "isdigit c = (let n = (of_char c :: nat) in 48 \<le> n \<and> n \<le> 57)"

definition isalnum :: "char \<Rightarrow> bool" where
  "isalnum c = (isalpha c \<or> isdigit c)"

definition isspace :: "char \<Rightarrow> bool" where
  "isspace c = (let n = (of_char c :: nat) in n = 32 \<or> (9 \<le> n \<and> n \<le> 13))"

definition newline :: char where
  "newline = CHR 0x0A"

definition dquote :: char where
  "dquote = CHR 0x22"

definition squote :: char where
  "squote = CHR 0x27"

definition underscore :: char where
  "underscore = CHR 0x5F"

definition nul :: char where
  "nul = CHR 0x00"

text \<open>\<open>std::endl\<close> writes a newline; the flush is not observable here.\<close>

definition endl :: string where
  "endl = [newline]"

text \<open>The ANSI colour codes of namespace \<open>Colors\<close> that the interpreter writes.\<close>

definition RESET :: string where
  "RESET = CHR 0x1B # ''[0m''"

definition GREEN :: string where
  "GREEN = CHR 0x1B # ''[32m''"

definition YELLOW :: string where
  "YELLOW = CHR 0x1B # ''[33m''"

definition MAGENTA :: string where
  "MAGENTA = CHR 0x1B # ''[35m''"

definition CYAN :: string where
  "CYAN = CHR 0x1B # ''[36m''"

text \<open>The UTF-8 bytes of the four pictographs in the messages.\<close>

definition check_mark :: string where
  "check_mark = [CHR 0xE2, CHR 0x9C, CHR 0x93]"

definition brain_sign :: string where
  "brain_sign = [CHR 0xF0, CHR 0x9F, CHR 0xA7, CHR 0xA0]"

definition rocket_sign :: string where
  "rocket_sign = [CHR 0xF0, CHR 0x9F, CHR 0x9A, CHR 0x80]"

definition done_sign :: string where
  "done_sign = [CHR 0xE2, CHR 0x9C, CHR 0x85]"

section \<open>Tokens (main.cpp, lines 30-42)\<close>

datatype TokenType =
  IDENTIFIER | NUMBER | STRING | KEYWORD | OPERATOR | DELIMITER | NEWLINE | EOF_TOKEN

text \<open>
  \<open>struct Token { type; value; line; column; }\<close>. The fields carry the prefix
  \<open>tok_\<close> because the tokenizer has fields \<open>line\<close> and \<open>column\<close> of its own.
\<close>

record Token =
  tok_type :: TokenType
  tok_value :: string
  tok_line :: int
  tok_column :: int

definition mkToken :: "TokenType \<Rightarrow> string \<Rightarrow> int \<Rightarrow> int \<Rightarrow> Token" where
  "mkToken t v l c = \<lparr>tok_type = t, tok_value = v, tok_line = l, tok_column = c\<rparr>"

section \<open>SimpleTokenizer (main.cpp, lines 44-144)\<close>

text \<open>
  The private fields of the class. \<open>line\<close> and \<open>column\<close> are C++ \<open>int\<close>s; they
  count characters of the source, so they stay far below \<open>2^31\<close> for every source that
  fits in memory with room to spare, and are modelled as unbounded integers.
\<close>

record SimpleTokenizer =
  source :: string
  current :: nat
  line :: int
  column :: int

definition keywords_tbl :: "string list" where
  "keywords_tbl = [''var'', ''int'', ''double'', ''string'', ''bool'',
     ''if'', ''else'', ''while'', ''for'', ''function'',
     ''class'', ''return'', ''true'', ''false'', ''null'',
     ''model'', ''train'', ''predict'', ''tensor'', ''import'']"

text \<open>\<open>explicit SimpleTokenizer(const std::string& src)\<close> with the default member values.\<close>

definition newTokenizer :: "string \<Rightarrow> SimpleTokenizer" where
  "newTokenizer src = \<lparr>source = src, current = 0, line = 1, column = 1\<rparr>"

definition isAtEnd :: "SimpleTokenizer \<Rightarrow> bool" where
  "isAtEnd t = (current t \<ge> length (source t))"

text \<open>\<open>advance\<close> returns the character read and the tokenizer after the read.\<close>

definition advance :: "SimpleTokenizer \<Rightarrow> char \<times> SimpleTokenizer" where
  "advance t =
     (if isAtEnd t then (nul, t)
      else (source t ! current t, t\<lparr>column := column t + 1, current := current t + 1\<rparr>))"

definition peek :: "SimpleTokenizer \<Rightarrow> char" where
  "peek t = (if isAtEnd t then nul else source t ! current t)"

text \<open>\<open>source.substr(start, n)\<close> for \<open>start\<close> within the source.\<close>

definition substr :: "string \<Rightarrow> nat \<Rightarrow> nat \<Rightarrow> string" where
  "substr s start n = take n (drop start s)"

function skipWhitespace :: "SimpleTokenizer \<Rightarrow> SimpleTokenizer" where
  "skipWhitespace t =
     (if \<not> isAtEnd t \<and> isspace (peek t) \<and> peek t \<noteq> newline
      then skipWhitespace (snd (advance t))
      else t)"
  by pat_completeness auto
termination
  by (relation "measure (\<lambda>t. length (source t) - current t)")
     (auto simp: advance_def isAtEnd_def)

text \<open>The \<open>while\<close> loop of \<open>identifier()\<close>.\<close>

function identifier_loop :: "SimpleTokenizer \<Rightarrow> SimpleTokenizer" where
  "identifier_loop t =
     (if \<not> isAtEnd t \<and> (isalnum (peek t) \<or> peek t = underscore)
      then identifier_loop (snd (advance t))
      else t)"
  by pat_completeness auto
termination
  by (relation "measure (\<lambda>t. length (source t) - current t)")
     (auto simp: advance_def isAtEnd_def)

text \<open>
  \<open>identifier()\<close> runs after \<open>tokenize\<close> has read the first character, so
  \<open>start = current - 1\<close> is that character's offset.
\<close>

definition identifier_tok :: "SimpleTokenizer \<Rightarrow> Token \<times> SimpleTokenizer" where
  "identifier_tok t0 =
     (let start = current t0 - 1;
          t = identifier_loop t0;
          text = substr (source t) start (current t - start);
          ty = (if text \<in> set keywords_tbl then KEYWORD else IDENTIFIER)
      in (mkToken ty text (line t) (column t - int (length text)), t))"

text \<open>The \<open>while\<close> loop of \<open>number()\<close>.\<close>

function number_loop :: "SimpleTokenizer \<Rightarrow> SimpleTokenizer" where
  "number_loop t =
     (if \<not> isAtEnd t \<and> (isdigit (peek t) \<or> peek t = CHR ''.'')
      then number_loop (snd (advance t))
      else t)"
  by pat_completeness auto
termination
  by (relation "measure (\<lambda>t. length (source t) - current t)")
     (auto simp: advance_def isAtEnd_def)

definition number_tok :: "SimpleTokenizer \<Rightarrow> Token \<times> SimpleTokenizer" where
  "number_tok t0 =
     (let start = current t0 - 1;
          t = number_loop t0;
          text = substr (source t) start (current t - start)
      in (mkToken NUMBER text (line t) (column t - int (length text)), t))"

text \<open>
  The \<open>while\<close> loop of \<open>string()\<close>: a newline inside the literal advances \<open>line\<close>;
  \<open>column\<close> is not reset.
\<close>

function string_loop :: "SimpleTokenizer \<Rightarrow> SimpleTokenizer" where
  "string_loop t =
     (if \<not> isAtEnd t \<and> peek t \<noteq> dquote
      then string_loop
             (snd (advance (if peek t = newline then t\<lparr>line := line t + 1\<rparr> else t)))
      else t)"
  by pat_completeness auto
termination
  by (relation "measure (\<lambda>t. length (source t) - current t)")
     (auto simp: advance_def isAtEnd_def)

text \<open>
  \<open>string()\<close> runs after the opening quote has been read. At the end of the input it
  returns a \<open>STRING\<close> token with a fixed text; otherwise the text between the quotes.
\<close>

definition string_tok :: "SimpleTokenizer \<Rightarrow> Token \<times> SimpleTokenizer" where
  "string_tok t0 =
     (let start = current t0;
          t = string_loop t0
      in if isAtEnd t
         then (mkToken STRING ''Unterminated string'' (line t) (column t), t)
         else
           (let text = substr (source t) start (current t - start);
                t' = snd (advance t)
            in (mkToken STRING text (line t') (column t' - int (length text)), t')))"

text \<open>
  One round of the \<open>while\<close> loop of \<open>tokenize()\<close> from the call of \<open>advance\<close> on: the
  token pushed and the tokenizer afterwards. The text of a \<open>NEWLINE\<close> token is the two
  characters backslash and n.
\<close>

definition scan_token :: "SimpleTokenizer \<Rightarrow> Token \<times> SimpleTokenizer" where
  "scan_token t1 =
     (let c = fst (advance t1); t2 = snd (advance t1)
      in if isalpha c \<or> c = underscore then identifier_tok t2
         else if isdigit c then number_tok t2
         else if c = dquote then string_tok t2
         else if c = newline
           then (mkToken NEWLINE [CHR 0x5C, CHR ''n''] (line t2) (column t2),
                 t2\<lparr>line := line t2 + 1, column := 1\<rparr>)
         else (mkToken OPERATOR [c] (line t2) (column t2), t2\<lparr>column := column t2 + 1\<rparr>))"

text \<open>
  The recursion equations are unconditional, so they are kept out of the simplifier;
  each loop is unfolded by its two step lemmas.
\<close>

declare skipWhitespace.simps [simp del] identifier_loop.simps [simp del]
  number_loop.simps [simp del] string_loop.simps [simp del]

lemma skipWhitespace_step:
  "\<not> isAtEnd t \<Longrightarrow> isspace (peek t) \<Longrightarrow> peek t \<noteq> newline \<Longrightarrow>
   skipWhitespace t = skipWhitespace (snd (advance t))"
  by (subst skipWhitespace.simps) simp

lemma skipWhitespace_stop:
  "isAtEnd t \<or> \<not> isspace (peek t) \<or> peek t = newline \<Longrightarrow> skipWhitespace t = t"
  by (subst skipWhitespace.simps) auto

lemma identifier_loop_step:
  "\<not> isAtEnd t \<Longrightarrow> isalnum (peek t) \<or> peek t = underscore \<Longrightarrow>
   identifier_loop t = identifier_loop (snd (advance t))"
  by (subst identifier_loop.simps) simp

lemma identifier_loop_stop:
  "isAtEnd t \<or> \<not> (isalnum (peek t) \<or> peek t = underscore) \<Longrightarrow> identifier_loop t = t"
  by (subst identifier_loop.simps) auto

lemma number_loop_step:
  "\<not> isAtEnd t \<Longrightarrow> isdigit (peek t) \<or> peek t = CHR ''.'' \<Longrightarrow>
   number_loop t = number_loop (snd (advance t))"
  by (subst number_loop.simps) simp

lemma number_loop_stop:
  "isAtEnd t \<or> \<not> (isdigit (peek t) \<or> peek t = CHR ''.'') \<Longrightarrow> number_loop t = t"
  by (subst number_loop.simps) auto

lemma string_loop_step:
  "\<not> isAtEnd t \<Longrightarrow> peek t \<noteq> dquote \<Longrightarrow>
   string_loop t =
     string_loop (snd (advance (if peek t = newline then t\<lparr>line := line t + 1\<rparr> else t)))"
  by (subst string_loop.simps) simp

lemma string_loop_stop:
  "isAtEnd t \<or> peek t = dquote \<Longrightarrow> string_loop t = t"
  by (subst string_loop.simps) auto

text \<open>None of the scanning loops changes the source or moves the cursor back.\<close>

lemma advance_source [simp]: "source (snd (advance t)) = source t"
  by (simp add: advance_def)

lemma advance_current: "current t \<le> current (snd (advance t))"
  by (simp add: advance_def)

lemma skipWhitespace_source [simp]: "source (skipWhitespace t) = source t"
proof (induction t rule: skipWhitespace.induct)
  case (1 t)
  show ?case
  proof (cases "\<not> isAtEnd t \<and> isspace (peek t) \<and> peek t \<noteq> newline")
    case True
    then show ?thesis using "1.IH" by (simp add: skipWhitespace_step)
  next
    case False
    then show ?thesis by (simp add: skipWhitespace_stop)
  qed
qed

lemma skipWhitespace_current: "current t \<le> current (skipWhitespace t)"
proof (induction t rule: skipWhitespace.induct)
  case (1 t)
  show ?case
  proof (cases "\<not> isAtEnd t \<and> isspace (peek t) \<and> peek t \<noteq> newline")
    case True
    then have "current (snd (advance t)) \<le> current (skipWhitespace t)"
      using "1.IH" by (simp add: skipWhitespace_step)
    then show ?thesis using advance_current [of t] by linarith
  next
    case False
    then show ?thesis by (simp add: skipWhitespace_stop)
  qed
qed

lemma identifier_loop_source [simp]: "source (identifier_loop t) = source t"
proof (induction t rule: identifier_loop.induct)
  case (1 t)
  show ?case
  proof (cases "\<not> isAtEnd t \<and> (isalnum (peek t) \<or> peek t = underscore)")
    case True
    then show ?thesis using "1.IH" by (simp add: identifier_loop_step)
  next
    case False
    then show ?thesis by (simp add: identifier_loop_stop)
  qed
qed

lemma identifier_loop_current: "current t \<le> current (identifier_loop t)"
proof (induction t rule: identifier_loop.induct)
  case (1 t)
  show ?case
  proof (cases "\<not> isAtEnd t \<and> (isalnum (peek t) \<or> peek t = underscore)")
    case True
    then have "current (snd (advance t)) \<le> current (identifier_loop t)"
      using "1.IH" by (simp add: identifier_loop_step)
    then show ?thesis using advance_current [of t] by linarith
  next
    case False
    then show ?thesis by (simp add: identifier_loop_stop)
  qed
qed

lemma number_loop_source [simp]: "source (number_loop t) = source t"
proof (induction t rule: number_loop.induct)
  case (1 t)
  show ?case
  proof (cases "\<not> isAtEnd t \<and> (isdigit (peek t) \<or> peek t = CHR ''.'')")
    case True
    then show ?thesis using "1.IH" by (simp add: number_loop_step)
  next
    case False
    then show ?thesis by (simp add: number_loop_stop)
  qed
qed

lemma number_loop_current: "current t \<le> current (number_loop t)"
proof (induction t rule: number_loop.induct)
  case (1 t)
  show ?case
  proof (cases "\<not> isAtEnd t \<and> (isdigit (peek t) \<or> peek t = CHR ''.'')")
    case True
    then have "current (snd (advance t)) \<le> current (number_loop t)"
      using "1.IH" by (simp add: number_loop_step)
    then show ?thesis using advance_current [of t] by linarith
  next
    case False
    then show ?thesis by (simp add: number_loop_stop)
  qed
qed

lemma string_loop_source [simp]: "source (string_loop t) = source t"
proof (induction t rule: string_loop.induct)
  case (1 t)
  show ?case
  proof (cases "\<not> isAtEnd t \<and> peek t \<noteq> dquote")
    case True
    then show ?thesis using "1.IH" by (simp add: string_loop_step)
  next
    case False
    then show ?thesis by (simp add: string_loop_stop)
  qed
qed

lemma string_loop_current: "current t \<le> current (string_loop t)"
proof (induction t rule: string_loop.induct)
  case (1 t)
  let ?u = "if peek t = newline then t\<lparr>line := line t + 1\<rparr> else t"
  show ?case
  proof (cases "\<not> isAtEnd t \<and> peek t \<noteq> dquote")
    case True
    then have "current (snd (advance ?u)) \<le> current (string_loop t)"
      using "1.IH" by (simp add: string_loop_step)
    moreover have "current t \<le> current (snd (advance ?u))"
      using advance_current [of ?u] by (cases "peek t = newline") simp_all
    ultimately show ?thesis by linarith
  next
    case False
    then show ?thesis by (simp add: string_loop_stop)
  qed
qed

lemma scan_token_source [simp]: "source (snd (scan_token t)) = source t"
  by (simp add: scan_token_def identifier_tok_def number_tok_def string_tok_def Let_def)

lemma scan_token_current:
  assumes "\<not> isAtEnd t"
  shows "current t < current (snd (scan_token t))"
proof -
  let ?t2 = "snd (advance t)"
  have adv: "current ?t2 = current t + 1"
    using assms by (simp add: advance_def)
  have "current ?t2 \<le> current (snd (identifier_tok ?t2))"
    using identifier_loop_current [of ?t2] by (simp add: identifier_tok_def Let_def)
  moreover have "current ?t2 \<le> current (snd (number_tok ?t2))"
    using number_loop_current [of ?t2] by (simp add: number_tok_def Let_def)
  moreover have "current ?t2 \<le> current (snd (string_tok ?t2))"
    using string_loop_current [of ?t2] advance_current [of "string_loop ?t2"]
    by (simp add: string_tok_def Let_def)
  ultimately show ?thesis
    using adv by (simp add: scan_token_def Let_def)
qed

text \<open>
  The \<open>while\<close> loop of \<open>tokenize()\<close>, with the vector of tokens pushed so far; it
  returns the vector and the tokenizer at the end of the loop.
\<close>

function tokenize_loop :: "SimpleTokenizer \<Rightarrow> Token list \<Rightarrow> Token list \<times> SimpleTokenizer" where
  "tokenize_loop t tokens =
     (if \<not> isAtEnd t
      then (let t1 = skipWhitespace t
            in if isAtEnd t1 then (tokens, t1)
               else tokenize_loop (snd (scan_token t1)) (tokens @ [fst (scan_token t1)]))
      else (tokens, t))"
  by pat_completeness auto
termination
proof (relation "measure (\<lambda>(t, tokens). length (source t) - current t)")
  show "wf (measure (\<lambda>(t, tokens). length (source t) - current t))"
    by simp
next
  fix t :: SimpleTokenizer and tokens :: "Token list" and t1
  assume a: "\<not> isAtEnd t" and b: "t1 = skipWhitespace t" and c: "\<not> isAtEnd t1"
  have "current t \<le> current t1"
    using b skipWhitespace_current by simp
  moreover have "current t1 < current (snd (scan_token t1))"
    using c by (rule scan_token_current)
  moreover have "source (snd (scan_token t1)) = source t"
    using b by simp
  ultimately show "((snd (scan_token t1), tokens @ [fst (scan_token t1)]), (t, tokens))
      \<in> measure (\<lambda>(t, tokens). length (source t) - current t)"
    using a by (simp add: isAtEnd_def)
qed

declare tokenize_loop.simps [simp del]

text \<open>\<open>tokenize()\<close>: the loop from a fresh tokenizer, then the end-of-file token.\<close>

definition tokenize :: "string \<Rightarrow> Token list" where
  "tokenize src =
     (let r = tokenize_loop (newTokenizer src) []
      in fst r @ [mkToken EOF_TOKEN [] (line (snd r)) (column (snd r))])"

section \<open>NexusInterpreter (main.cpp, lines 147-255)\<close>

text \<open>
  The interpreter's fields are the map \<open>variables\<close> and the flag \<open>debugMode\<close>;
  \<open>cout\<close> is everything written to standard output so far. The pause of
  \<open>handleTrainStatement\<close> (\<open>sleep_for\<close>) changes no field and writes nothing.
\<close>

record NexusInterpreter =
  variables :: "string \<rightharpoonup> string"
  debugMode :: bool
  cout :: string

text \<open>A default-constructed interpreter that has written nothing.\<close>

definition newInterpreter :: NexusInterpreter where
  "newInterpreter = \<lparr>variables = Map.empty, debugMode = False, cout = []\<rparr>"

definition setDebugMode :: "bool \<Rightarrow> NexusInterpreter \<Rightarrow> NexusInterpreter" where
  "setDebugMode debug st = st\<lparr>debugMode := debug\<rparr>"

definition tokenTypeToString :: "TokenType \<Rightarrow> string" where
  "tokenTypeToString ty =
     (case ty of IDENTIFIER \<Rightarrow> ''IDENTIFIER'' | NUMBER \<Rightarrow> ''NUMBER'' | STRING \<Rightarrow> ''STRING''
      | KEYWORD \<Rightarrow> ''KEYWORD'' | OPERATOR \<Rightarrow> ''OPERATOR'' | DELIMITER \<Rightarrow> ''DELIMITER''
      | NEWLINE \<Rightarrow> ''NEWLINE'' | EOF_TOKEN \<Rightarrow> ''EOF'')"

text \<open>
  The handlers take the token vector, the loop index \<open>i\<close> (passed by reference in the
  source) and the interpreter, and return the index and the interpreter afterwards.
\<close>

definition handleVariableDeclaration ::
  "Token list \<Rightarrow> nat \<Rightarrow> NexusInterpreter \<Rightarrow> nat \<times> NexusInterpreter" where
  "handleVariableDeclaration tokens i st =
     (if i + 4 < length tokens \<and> tok_value (tokens ! (i + 2)) = ''=''
      then (let varName = tok_value (tokens ! (i + 1));
                val = tok_value (tokens ! (i + 3))
            in (i + 4,
                st\<lparr>variables := (variables st)(varName \<mapsto> val),
                   cout := cout st @ GREEN @ check_mark @ '' Variable '' @ [squote] @ varName
                     @ [squote] @ '' = '' @ val @ RESET @ endl\<rparr>))
      else (i, st))"

definition handleModelDeclaration ::
  "Token list \<Rightarrow> nat \<Rightarrow> NexusInterpreter \<Rightarrow> nat \<times> NexusInterpreter" where
  "handleModelDeclaration tokens i st =
     (if i + 2 < length tokens
      then (let modelName = tok_value (tokens ! (i + 1))
            in (i + 2,
                st\<lparr>cout := cout st @ MAGENTA @ brain_sign @ '' Created model '' @ [squote]
                     @ modelName @ [squote] @ RESET @ endl\<rparr>))
      else (i, st))"

definition handleTrainStatement ::
  "Token list \<Rightarrow> nat \<Rightarrow> NexusInterpreter \<Rightarrow> nat \<times> NexusInterpreter" where
  "handleTrainStatement tokens i st =
     (if i + 1 < length tokens
      then (let modelName = tok_value (tokens ! (i + 1))
            in (i + 1,
                st\<lparr>cout := cout st @ YELLOW @ rocket_sign @ '' Training model '' @ [squote]
                     @ modelName @ [squote] @ ''...'' @ RESET @ endl
                     @ GREEN @ done_sign @ '' Training completed!'' @ RESET @ endl\<rparr>))
      else (i, st))"

text \<open>
  \<open>value.front()\<close> and \<open>value.back()\<close> are read only of a non-empty string here: on
  the empty string \<open>front()\<close> yields the terminating NUL in the usual implementations,
  which is not a quote, and \<open>&&\<close> does not read \<open>back()\<close>. \<open>substr(1, length - 2)\<close> of
  the one-character string is empty, as \<open>take 0\<close> is.
\<close>

definition handlePrintStatement ::
  "Token list \<Rightarrow> nat \<Rightarrow> NexusInterpreter \<Rightarrow> nat \<times> NexusInterpreter" where
  "handlePrintStatement tokens i st =
     (if i + 1 < length tokens
      then (let val = tok_value (tokens ! (i + 1));
                val' =
                  (if val \<noteq> [] \<and> hd val = dquote \<and> last val = dquote
                   then substr val 1 (length val - 2)
                   else (case variables st val of Some v \<Rightarrow> v | None \<Rightarrow> val))
            in (i + 1, st\<lparr>cout := cout st @ val' @ endl\<rparr>))
      else (i, st))"

text \<open>The body of the \<open>for\<close> loop of \<open>executeTokens\<close>, before \<open>++i\<close>.\<close>

definition executeTokens_body ::
  "Token list \<Rightarrow> nat \<Rightarrow> NexusInterpreter \<Rightarrow> nat \<times> NexusInterpreter" where
  "executeTokens_body tokens i st =
     (let token = tokens ! i
      in if tok_type token = KEYWORD
         then (if tok_value token = ''var'' \<and> i + 2 < length tokens
                 then handleVariableDeclaration tokens i st
               else if tok_value token = ''model'' then handleModelDeclaration tokens i st
               else if tok_value token = ''train'' then handleTrainStatement tokens i st
               else if tok_value token = ''print'' then handlePrintStatement tokens i st
               else (i, st))
         else if tok_type token = IDENTIFIER
         then (if tok_value token = ''print'' \<and> i + 1 < length tokens
                 then handlePrintStatement tokens i st
               else (i, st))
         else (i, st))"

lemma executeTokens_body_index: "i \<le> fst (executeTokens_body tokens i st)"
  by (simp add: executeTokens_body_def handleVariableDeclaration_def
      handleModelDeclaration_def handleTrainStatement_def handlePrintStatement_def Let_def)

function executeTokens_loop :: "Token list \<Rightarrow> nat \<Rightarrow> NexusInterpreter \<Rightarrow> NexusInterpreter" where
  "executeTokens_loop tokens i st =
     (if i < length tokens
      then executeTokens_loop tokens (fst (executeTokens_body tokens i st) + 1)
             (snd (executeTokens_body tokens i st))
      else st)"
  by pat_completeness auto
termination
proof (relation "measure (\<lambda>(tokens, i, st). length tokens - i)")
  show "wf (measure (\<lambda>(tokens, i, st). length tokens - i))"
    by simp
next
  fix tokens :: "Token list" and i :: nat and st :: NexusInterpreter
  assume "i < length tokens"
  then show "((tokens, fst (executeTokens_body tokens i st) + 1,
        snd (executeTokens_body tokens i st)), (tokens, i, st))
      \<in> measure (\<lambda>(tokens, i, st). length tokens - i)"
    using executeTokens_body_index [of i tokens st] by simp
qed

declare executeTokens_loop.simps [simp del]

definition executeTokens :: "Token list \<Rightarrow> NexusInterpreter \<Rightarrow> NexusInterpreter" where
  "executeTokens tokens st = executeTokens_loop tokens 0 st"

text \<open>The token listing that \<open>execute\<close> writes in debug mode.\<close>

fun debugTokens :: "Token list \<Rightarrow> string" where
  "debugTokens [] = []"
| "debugTokens (token # rest) =
     ''  '' @ tokenTypeToString (tok_type token) @ '': '' @ [squote] @ tok_value token
       @ [squote] @ endl @ debugTokens rest"

definition execute :: "string \<Rightarrow> NexusInterpreter \<Rightarrow> NexusInterpreter" where
  "execute src st =
     (if src = [] then st
      else (let tokens = tokenize src;
                st1 = (if debugMode st
                       then st\<lparr>cout := cout st @ CYAN @ ''=== Debug: Tokens ==='' @ RESET @ endl
                              @ debugTokens tokens @ endl\<rparr>
                       else st)
            in executeTokens tokens st1))"

section \<open>Environment (declared in neural_network.h, lines 223-284)\<close>

text \<open>
  The class \<open>Environment\<close> is declared with its fields (the map \<open>variables\<close>, the
  pointer \<open>parent\<close>, the set \<open>constants\<close>, \<open>scopeName\<close> and \<open>depth\<close>); its member
  functions have no body in the sources. A scope is a value that holds its parent
  chain; the field \<open>variables\<close> is named \<open>env_variables\<close> here, the interpreter's
  record having taken the name. The element type \<open>'v\<close> stands for \<open>Value\<close>.
\<close>

datatype EnvError = NameError | ConstAssignError

datatype 'v Environment =
  Environment (env_variables: "string \<rightharpoonup> 'v") (constants: "string set")
    (scopeName: string) (depth: int) (parent: "'v Environment option")

text \<open>
  Modelled from the spec: the constructor \<open>Environment(enclosing, name)\<close>, declared
  only. A new scope is empty; the root has depth 0 and a child one more than its parent.
\<close>

definition newEnvironment :: "'v Environment option \<Rightarrow> string \<Rightarrow> 'v Environment" where
  "newEnvironment enclosing name =
     Environment Map.empty {} name
       (case enclosing of None \<Rightarrow> 0 | Some p \<Rightarrow> depth p + 1) enclosing"

text \<open>
  Modelled from the spec: \<open>Environment::define\<close>, declared only. It inserts into the
  current scope, shadowing any outer binding; redefining a name of the same scope is
  allowed, the last write winning, unless the name was declared constant in that
  scope, in which case it fails.
\<close>

fun env_define :: "'v Environment \<Rightarrow> string \<Rightarrow> 'v \<Rightarrow> bool \<Rightarrow> EnvError + 'v Environment" where
  "env_define (Environment vs cs nm d p) name v isConstant =
     (if name \<in> cs then Inl ConstAssignError
      else Inr (Environment (vs(name \<mapsto> v)) (if isConstant then insert name cs else cs) nm d p))"

text \<open>Modelled from the spec: \<open>Environment::defineConstant\<close>, declared only.\<close>

definition defineConstant :: "'v Environment \<Rightarrow> string \<Rightarrow> 'v \<Rightarrow> EnvError + 'v Environment" where
  "defineConstant env name v = env_define env name v True"

text \<open>
  Modelled from the spec: \<open>Environment::get\<close>, declared only. It walks outward from
  the current scope to the root; the first scope that contains the name wins; a name
  found nowhere is a \<open>NameError\<close>.
\<close>

fun env_get :: "'v Environment \<Rightarrow> string \<Rightarrow> EnvError + 'v" where
  "env_get (Environment vs cs nm d p) name =
     (case vs name of
        Some v \<Rightarrow> Inr v
      | None \<Rightarrow> (case p of None \<Rightarrow> Inl NameError | Some e \<Rightarrow> env_get e name))"

text \<open>A name that no scope of the chain defines, from the current scope out to the root.\<close>

fun defined_nowhere :: "'v Environment \<Rightarrow> string \<Rightarrow> bool" where
  "defined_nowhere (Environment vs cs nm d p) name =
     (vs name = None \<and> (case p of None \<Rightarrow> True | Some e \<Rightarrow> defined_nowhere e name))"

text \<open>
  Modelled from the spec: \<open>Environment::assign\<close>, declared only. It walks outward to
  the nearest scope that defines the name and creates no binding; a constant binding
  there is a \<open>ConstAssignError\<close>, a name defined nowhere a \<open>NameError\<close>. The result
  is the chain with that one scope updated.
\<close>

fun env_assign :: "'v Environment \<Rightarrow> string \<Rightarrow> 'v \<Rightarrow> EnvError + 'v Environment" where
  "env_assign (Environment vs cs nm d p) name v =
     (case vs name of
        Some old \<Rightarrow>
          (if name \<in> cs then Inl ConstAssignError
           else Inr (Environment (vs(name \<mapsto> v)) cs nm d p))
      | None \<Rightarrow>
          (case p of
             None \<Rightarrow> Inl NameError
           | Some e \<Rightarrow>
               (case env_assign e name v of
                  Inl err \<Rightarrow> Inl err
                | Inr e' \<Rightarrow> Inr (Environment vs cs nm d (Some e')))))"

text \<open>The global scope of a new interpreter, holding integers for the example below.\<close>

definition globalScope :: "int Environment" where
  "globalScope = newEnvironment None ''global''"

section \<open>Tensor (declared in value.h, lines 34-79)\<close>

text \<open>
  The private fields of class \<open>Tensor\<close>. \<open>'d\<close> stands for \<open>double\<close>: the operations
  below move elements and never compute with them.
\<close>

record 'd Tensor =
  data :: "'d list"
  shape :: "nat list"
  totalSize :: nat

text \<open>The invariant the spec states of every tensor: the length is the product of the shape.\<close>

definition tensor_invariant :: "'d Tensor \<Rightarrow> bool" where
  "tensor_invariant t = (length (data t) = prod_list (shape t))"

text \<open>
  Modelled from the spec: \<open>Tensor::calculateIndex\<close>, declared only. The storage is
  flat and row-major (the spec's matrix \<open>[[1,2],[3,4]]\<close> is stored as \<open>1,2,3,4\<close>): the
  offset of an index list in a tensor of the given shape.
\<close>

fun calculateIndex :: "nat list \<Rightarrow> nat list \<Rightarrow> nat" where
  "calculateIndex (d # ds) (i # is) = i * prod_list ds + calculateIndex ds is"
| "calculateIndex _ _ = 0"

text \<open>
  The index list of a flat offset in a tensor of the given shape, the inverse of
  \<open>calculateIndex\<close>; the model of \<open>transpose\<close> below reads the target index with it.
\<close>

fun indicesOf :: "nat list \<Rightarrow> nat \<Rightarrow> nat list" where
  "indicesOf [] k = []"
| "indicesOf (d # ds) k = (k div prod_list ds) # indicesOf ds (k mod prod_list ds)"

text \<open>
  Modelled from the spec: \<open>Tensor::transpose\<close>, declared only. The spec asks for the
  transpose of every tensor, names no failure, has it return a new tensor, and fixes
  it on a matrix (\<open>[[1,2],[3,4]]\<close> becomes shape \<open>[2,2]\<close>, elements \<open>1,3,2,4\<close>). The
  model reverses the order of the axes: the element at \<open>(i, j, ..., k)\<close> of the result
  is the element at \<open>(k, ..., j, i)\<close> of the tensor, which on a matrix is the usual
  transpose. The cached \<open>totalSize\<close> is computed anew.
\<close>

definition transpose_tensor :: "'d Tensor \<Rightarrow> 'd Tensor" where
  "transpose_tensor t =
     \<lparr>data = map (\<lambda>k. data t ! calculateIndex (shape t) (rev (indicesOf (rev (shape t)) k)))
               [0..<prod_list (shape t)],
      shape = rev (shape t),
      totalSize = prod_list (shape t)\<rparr>"

text \<open>The matrix of the spec's example.\<close>

definition matrix_1234 :: "int Tensor" where
  "matrix_1234 = \<lparr>data = [1, 2, 3, 4], shape = [2, 2], totalSize = 4\<rparr>"

text \<open>An index list that names an element of a tensor of the given shape.\<close>

definition valid_indices :: "nat list \<Rightarrow> nat list \<Rightarrow> bool" where
  "valid_indices ds is = list_all2 (<) is ds"

section \<open>Value and its copies (value.h, lines 107-147)\<close>

text \<open>
  The alternatives of the variant \<open>data_\<close>: an array owns a vector of values and an
  object a map from keys to values, while a function and a tensor are held through a
  \<open>shared_ptr\<close>, here the address of the allocation. The constructors carry the
  prefix \<open>V\<close>, the token types having taken \<open>NUMBER\<close> and \<open>STRING\<close>; \<open>'d\<close> stands
  for \<open>double\<close>.
\<close>

type_synonym addr = nat

datatype 'd Value =
  VNil | VBoolean bool | VNumber 'd | VString string
| VArray "'d Value list" | VObject "(string \<times> 'd Value) list"
| VFunction addr | VTensor addr

text \<open>
  The store: the named places that hold a \<open>Value\<close> (variables, say), and the tensors
  allocated on the heap.
\<close>

record 'd Store =
  holders :: "string \<rightharpoonup> 'd Value"
  tensors :: "addr \<rightharpoonup> 'd Tensor"

text \<open>
  Modelled from the spec: \<open>Value\<close>'s copy constructor and copy assignment, declared
  only. Assignment copies the active alternative of \<open>data_\<close>: the vector or the map
  is copied, the \<open>shared_ptr\<close> is copied and so points to the same allocation.
\<close>

definition copy_assign :: "string \<Rightarrow> string \<Rightarrow> 'd Store \<Rightarrow> 'd Store" where
  "copy_assign dst src s =
     (case holders s src of
        None \<Rightarrow> s
      | Some v \<Rightarrow> s\<lparr>holders := (holders s)(dst \<mapsto> v)\<rparr>)"

definition is_container :: "'d Value \<Rightarrow> bool" where
  "is_container v = (case v of VArray xs \<Rightarrow> True | VObject kvs \<Rightarrow> True | _ \<Rightarrow> False)"

text \<open>
  Modelled from the spec: the mutating members of an array or object (\<open>set\<close>, the
  non-const \<open>operator[]\<close> and \<open>asArray\<close>, declared only). They change the vector or
  map that the holder owns, by whatever function \<open>f\<close>.
\<close>

definition mutate_contents :: "string \<Rightarrow> ('d Value \<Rightarrow> 'd Value) \<Rightarrow> 'd Store \<Rightarrow> 'd Store" where
  "mutate_contents h f s =
     (case holders s h of
        Some v \<Rightarrow> (if is_container v then s\<lparr>holders := (holders s)(h \<mapsto> f v)\<rparr> else s)
      | None \<Rightarrow> s)"

text \<open>
  Modelled from the spec: an in-place operation \<open>g\<close> of a tensor (\<open>fill\<close>, \<open>zero\<close>,
  \<open>randomize\<close>, declared only) called through the pointer a holder has.
\<close>

definition mutate_tensor :: "string \<Rightarrow> ('d Tensor \<Rightarrow> 'd Tensor) \<Rightarrow> 'd Store \<Rightarrow> 'd Store" where
  "mutate_tensor h g s =
     (case holders s h of
        Some (VTensor p) \<Rightarrow>
          (case tensors s p of
             Some t \<Rightarrow> s\<lparr>tensors := (tensors s)(p \<mapsto> g t)\<rparr>
           | None \<Rightarrow> s)
      | _ \<Rightarrow> s)"

text \<open>The tensor a holder sees through its pointer.\<close>

definition read_tensor :: "'d Store \<Rightarrow> string \<Rightarrow> 'd Tensor option" where
  "read_tensor s h = (case holders s h of Some (VTensor p) \<Rightarrow> tensors s p | _ \<Rightarrow> None)"

text \<open>Modelled from the spec: \<open>Tensor::fill\<close>, declared only: every element becomes \<open>x\<close>.\<close>

definition fill :: "'d \<Rightarrow> 'd Tensor \<Rightarrow> 'd Tensor" where
  "fill x t = t\<lparr>data := replicate (length (data t)) x\<rparr>"

text \<open>A store with an array in \<open>a\<close> and a tensor, at address 0, in \<open>t\<close>.\<close>

definition example_store :: "int Store" where
  "example_store =
     \<lparr>holders = [''a'' \<mapsto> VArray [VNumber 1, VNumber 2], ''t'' \<mapsto> VTensor 0],
      tensors = [0 \<mapsto> matrix_1234]\<rparr>"

section \<open>Notions used to state the properties of the tokenizer and the interpreter\<close>

text \<open>
  \<open>rest t\<close> is the part of the source that the tokenizer \<open>t\<close> has not read yet;
  \<open>moved t n\<close> is \<open>t\<close> after \<open>n\<close> calls of \<open>advance\<close> inside the source.
\<close>

definition rest :: "SimpleTokenizer \<Rightarrow> string" where
  "rest t = drop (current t) (source t)"

definition moved :: "SimpleTokenizer \<Rightarrow> nat \<Rightarrow> SimpleTokenizer" where
  "moved t n = t\<lparr>column := column t + int n, current := current t + n\<rparr>"

text \<open>The characters each scanning loop reads on.\<close>

definition ws :: "char \<Rightarrow> bool" where
  "ws c = (isspace c \<and> c \<noteq> newline)"

definition idch :: "char \<Rightarrow> bool" where
  "idch c = (isalnum c \<or> c = underscore)"

definition numch :: "char \<Rightarrow> bool" where
  "numch c = (isdigit c \<or> c = CHR ''.'')"

definition strch :: "char \<Rightarrow> bool" where
  "strch c = (c \<noteq> dquote)"

text \<open>The tokens that stand for a newline of the source.\<close>

definition is_newline_token :: "Token \<Rightarrow> bool" where
  "is_newline_token tok = (tok_type tok = NEWLINE)"

text \<open>
  The number of newline characters of a text that lie outside its string literals;
  the flag says whether the text starts inside a literal. A double quote opens or
  closes a literal, as in \<open>string()\<close>, which knows no escape.
\<close>

fun newlines_outside_strings :: "bool \<Rightarrow> string \<Rightarrow> nat" where
  "newlines_outside_strings inside [] = 0"
| "newlines_outside_strings inside (c # cs) =
     (if c = dquote then newlines_outside_strings (\<not> inside) cs
      else (if \<not> inside \<and> c = newline then 1 else 0) + newlines_outside_strings inside cs)"

text \<open>The program of the spec's end-to-end example.\<close>

definition precedence_program :: string where
  "precedence_program = ''var x = 2 + 3 * 4; print(x);''"

text \<open>A name as \<open>identifier()\<close> reads it: a letter or underscore, then letters, digits, underscores.\<close>

definition is_identifier :: "string \<Rightarrow> bool" where
  "is_identifier n = (n \<noteq> [] \<and> (isalpha (hd n) \<or> hd n = underscore) \<and> list_all idch (tl n))"

section \<open>The empty source\<close>

text \<open>
  Claim C10. \<open>execute\<close> of the empty source returns at once: the interpreter is
  unchanged, so nothing is written (not even the token listing of debug mode) and the
  variable bindings are what they were.
\<close>

theorem execute_empty_source: "execute [] st = st"
  by (simp add: execute_def)

section \<open>The scanning loops and the token sequence\<close>

lemma isAtEnd_rest: "isAtEnd t \<longleftrightarrow> rest t = []"
  by (simp add: isAtEnd_def rest_def)

lemma rest_Cons:
  assumes "rest t = c # r"
  shows "peek t = c" and "\<not> isAtEnd t" and "fst (advance t) = c"
    and "snd (advance t) = moved t 1" and "rest (moved t 1) = r"
proof -
  have lt: "current t < length (source t)"
    using assms by (auto simp: rest_def intro: ccontr)
  have c: "source t ! current t = c"
    using assms nth_via_drop rest_def by metis
  have r: "drop (Suc (current t)) (source t) = r"
    using assms by (metis drop_Suc list.sel(3) rest_def tl_drop)
  show "\<not> isAtEnd t" using lt by (simp add: isAtEnd_def)
  show "peek t = c" using lt c by (simp add: peek_def isAtEnd_def)
  show "fst (advance t) = c" using lt c by (simp add: advance_def isAtEnd_def)
  show "snd (advance t) = moved t 1" using lt by (simp add: advance_def isAtEnd_def moved_def)
  show "rest (moved t 1) = r" using r by (simp add: rest_def moved_def)
qed

lemma moved_0 [simp]: "moved t 0 = t"
  by (simp add: moved_def)

lemma moved_moved [simp]: "moved (moved t m) n = moved t (m + n)"
  by (simp add: moved_def)

lemma rest_moved: "rest (moved t n) = drop n (rest t)"
  by (simp add: rest_def moved_def add.commute)

lemma skipWhitespace_moved:
  "skipWhitespace t = moved t (length (takeWhile ws (rest t)))"
proof (induction "rest t" arbitrary: t)
  case Nil
  then show ?case by (simp add: skipWhitespace_stop isAtEnd_rest)
next
  case (Cons c r)
  note rc = rest_Cons [OF Cons.hyps(2) [symmetric]]
  show ?case
  proof (cases "ws c")
    case True
    have "skipWhitespace t = skipWhitespace (moved t 1)"
      using True rc by (simp add: skipWhitespace_step ws_def)
    also have "\<dots> = moved (moved t 1) (length (takeWhile ws (rest (moved t 1))))"
      using Cons.hyps(1) [of "moved t 1"] rc by simp
    finally show ?thesis
      using True rc Cons.hyps(2) [symmetric] by simp
  next
    case False
    then have "skipWhitespace t = t"
      using rc by (auto simp: skipWhitespace_stop ws_def)
    then show ?thesis
      using False Cons.hyps(2) [symmetric] by simp
  qed
qed

lemma identifier_loop_moved:
  "identifier_loop t = moved t (length (takeWhile idch (rest t)))"
proof (induction "rest t" arbitrary: t)
  case Nil
  then show ?case by (simp add: identifier_loop_stop isAtEnd_rest)
next
  case (Cons c r)
  note rc = rest_Cons [OF Cons.hyps(2) [symmetric]]
  show ?case
  proof (cases "idch c")
    case True
    have "identifier_loop t = identifier_loop (moved t 1)"
      using True rc by (simp add: identifier_loop_step idch_def)
    also have "\<dots> = moved (moved t 1) (length (takeWhile idch (rest (moved t 1))))"
      using Cons.hyps(1) [of "moved t 1"] rc by simp
    finally show ?thesis
      using True rc Cons.hyps(2) [symmetric] by simp
  next
    case False
    then have "identifier_loop t = t"
      using rc by (auto simp: identifier_loop_stop idch_def)
    then show ?thesis
      using False Cons.hyps(2) [symmetric] by simp
  qed
qed

lemma number_loop_moved:
  "number_loop t = moved t (length (takeWhile numch (rest t)))"
proof (induction "rest t" arbitrary: t)
  case Nil
  then show ?case by (simp add: number_loop_stop isAtEnd_rest)
next
  case (Cons c r)
  note rc = rest_Cons [OF Cons.hyps(2) [symmetric]]
  show ?case
  proof (cases "numch c")
    case True
    have "number_loop t = number_loop (moved t 1)"
      using True rc by (simp add: number_loop_step numch_def)
    also have "\<dots> = moved (moved t 1) (length (takeWhile numch (rest (moved t 1))))"
      using Cons.hyps(1) [of "moved t 1"] rc by simp
    finally show ?thesis
      using True rc Cons.hyps(2) [symmetric] by simp
  next
    case False
    then have "number_loop t = t"
      using rc by (auto simp: number_loop_stop numch_def)
    then show ?thesis
      using False Cons.hyps(2) [symmetric] by simp
  qed
qed

lemma rest_line [simp]: "rest (t\<lparr>line := l\<rparr>) = rest t"
  by (simp add: rest_def)

lemma string_loop_moved:
  "string_loop t =
     (moved t (length (takeWhile strch (rest t))))
       \<lparr>line := line t + int (count_list (takeWhile strch (rest t)) newline)\<rparr>"
proof (induction "rest t" arbitrary: t)
  case Nil
  then show ?case by (simp add: string_loop_stop isAtEnd_rest)
next
  case (Cons c r)
  note rc = rest_Cons [OF Cons.hyps(2) [symmetric]]
  show ?case
  proof (cases "strch c")
    case True
    let ?u = "if c = newline then t\<lparr>line := line t + 1\<rparr> else t"
    have ru: "rest ?u = c # r"
      using Cons.hyps(2) by simp
    note uc = rest_Cons [OF ru]
    have "string_loop t = string_loop (moved ?u 1)"
      using True rc uc by (simp add: string_loop_step strch_def)
    also have "\<dots> = (moved (moved ?u 1) (length (takeWhile strch (rest (moved ?u 1)))))
       \<lparr>line := line (moved ?u 1) + int (count_list (takeWhile strch (rest (moved ?u 1))) newline)\<rparr>"
      using Cons.hyps(1) [of "moved ?u 1"] uc by simp
    finally show ?thesis
      using True uc Cons.hyps(2) [symmetric] by (simp add: moved_def)
  next
    case False
    then have "string_loop t = t"
      using rc by (auto simp: string_loop_stop strch_def)
    then show ?thesis
      using False Cons.hyps(2) [symmetric] by simp
  qed
qed

lemma tokenize_loop_end: "isAtEnd t \<Longrightarrow> tokenize_loop t tokens = (tokens, t)"
  by (subst tokenize_loop.simps) simp

lemma tokenize_loop_ws_end:
  "\<not> isAtEnd t \<Longrightarrow> isAtEnd (skipWhitespace t) \<Longrightarrow>
   tokenize_loop t tokens = (tokens, skipWhitespace t)"
  by (subst tokenize_loop.simps) simp

lemma tokenize_loop_step:
  "\<not> isAtEnd t \<Longrightarrow> \<not> isAtEnd (skipWhitespace t) \<Longrightarrow>
   tokenize_loop t tokens =
     tokenize_loop (snd (scan_token (skipWhitespace t)))
       (tokens @ [fst (scan_token (skipWhitespace t))])"
  by (subst tokenize_loop.simps) (simp add: Let_def)

lemma rest_skipWhitespace: "rest (skipWhitespace t) = dropWhile ws (rest t)"
  by (simp add: skipWhitespace_moved rest_moved dropWhile_eq_drop)

lemma idch_not_newline: "idch c \<Longrightarrow> c \<noteq> newline"
  by (auto simp: idch_def isalnum_def isalpha_def isdigit_def newline_def underscore_def)

lemma numch_not_newline: "numch c \<Longrightarrow> c \<noteq> newline"
  by (auto simp: numch_def isdigit_def newline_def)

lemma ws_not_newline: "ws c \<Longrightarrow> c \<noteq> newline"
  by (simp add: ws_def)

lemma scan_token_identifier:
  assumes "rest t = c # r" and "isalpha c \<or> c = underscore"
  shows "tok_type (fst (scan_token t)) \<in> {KEYWORD, IDENTIFIER}"
    and "rest (snd (scan_token t)) = dropWhile idch r"
proof -
  note rc = rest_Cons [OF assms(1)]
  have st: "scan_token t = identifier_tok (moved t 1)"
    using assms(2) rc by (simp add: scan_token_def Let_def)
  show "tok_type (fst (scan_token t)) \<in> {KEYWORD, IDENTIFIER}"
    by (simp add: st identifier_tok_def Let_def mkToken_def)
  show "rest (snd (scan_token t)) = dropWhile idch r"
    using rc(5) by (simp add: st identifier_tok_def Let_def identifier_loop_moved rest_moved
        dropWhile_eq_drop assms(1))
qed

lemma scan_token_number:
  assumes "rest t = c # r" and "\<not> (isalpha c \<or> c = underscore)" and "isdigit c"
  shows "tok_type (fst (scan_token t)) = NUMBER"
    and "rest (snd (scan_token t)) = dropWhile numch r"
proof -
  note rc = rest_Cons [OF assms(1)]
  have st: "scan_token t = number_tok (moved t 1)"
    using assms(2,3) rc by (simp add: scan_token_def Let_def)
  show "tok_type (fst (scan_token t)) = NUMBER"
    by (simp add: st number_tok_def Let_def mkToken_def)
  show "rest (snd (scan_token t)) = dropWhile numch r"
    using rc(5) by (simp add: st number_tok_def Let_def number_loop_moved rest_moved
        dropWhile_eq_drop assms(1))
qed

lemma scan_token_newline:
  assumes "rest t = c # r" and "c = newline"
  shows "tok_type (fst (scan_token t)) = NEWLINE"
    and "rest (snd (scan_token t)) = r"
proof -
  note rc = rest_Cons [OF assms(1)]
  have n: "\<not> (isalpha c \<or> c = underscore)" "\<not> isdigit c" "c \<noteq> dquote"
    using assms(2) by (auto simp: isalpha_def isdigit_def newline_def underscore_def dquote_def)
  have st: "scan_token t =
      (mkToken NEWLINE [CHR 0x5C, CHR ''n''] (line (moved t 1)) (column (moved t 1)),
       (moved t 1)\<lparr>line := line (moved t 1) + 1, column := 1\<rparr>)"
    using assms(2) n rc by (simp add: scan_token_def Let_def)
  show "tok_type (fst (scan_token t)) = NEWLINE"
    by (simp add: st mkToken_def)
  show "rest (snd (scan_token t)) = r"
    using rc(5) by (simp add: st rest_def)
qed

lemma scan_token_operator:
  assumes "rest t = c # r" and "\<not> (isalpha c \<or> c = underscore)" and "\<not> isdigit c"
    and "c \<noteq> dquote" and "c \<noteq> newline"
  shows "tok_type (fst (scan_token t)) = OPERATOR"
    and "rest (snd (scan_token t)) = r"
proof -
  note rc = rest_Cons [OF assms(1)]
  have st: "scan_token t =
      (mkToken OPERATOR [c] (line (moved t 1)) (column (moved t 1)),
       (moved t 1)\<lparr>column := column (moved t 1) + 1\<rparr>)"
    using assms rc by (simp add: scan_token_def Let_def)
  show "tok_type (fst (scan_token t)) = OPERATOR"
    by (simp add: st mkToken_def)
  show "rest (snd (scan_token t)) = r"
    using rc(5) by (simp add: st rest_def)
qed

lemma outside_dropWhile:
  "(\<And>c. P c \<Longrightarrow> c \<noteq> newline \<and> c \<noteq> dquote) \<Longrightarrow>
   newlines_outside_strings False (dropWhile P xs) = newlines_outside_strings False xs"
  by (induction xs) auto

lemma inside_dropWhile:
  "newlines_outside_strings True xs =
     newlines_outside_strings False (tl (dropWhile strch xs))"
  by (induction xs) (auto simp: strch_def)

lemma ws_not_dquote: "ws c \<Longrightarrow> c \<noteq> dquote"
  by (auto simp: ws_def isspace_def dquote_def Let_def)

lemma idch_not_dquote: "idch c \<Longrightarrow> c \<noteq> dquote"
  by (auto simp: idch_def isalnum_def isalpha_def isdigit_def dquote_def underscore_def Let_def)

lemma numch_not_dquote: "numch c \<Longrightarrow> c \<noteq> dquote"
  by (auto simp: numch_def isdigit_def dquote_def Let_def)

lemma scan_token_string:
  assumes "rest t = c # r" and "c = dquote"
  shows "tok_type (fst (scan_token t)) = STRING"
    and "rest (snd (scan_token t)) = tl (dropWhile strch r)"
proof -
  note rc = rest_Cons [OF assms(1)]
  have cls: "\<not> (isalpha c \<or> c = underscore)" "\<not> isdigit c"
    using assms(2) by (simp_all add: isalpha_def isdigit_def dquote_def underscore_def)
  have st: "scan_token t = string_tok (moved t (Suc 0))"
    using rc cls assms(2) by (simp add: scan_token_def Let_def)
  let ?n = "length (takeWhile strch r)"
  let ?l = "line t + int (count_list (takeWhile strch r) newline)"
  have sl: "string_loop (moved t (Suc 0)) = (moved t (Suc ?n))\<lparr>line := ?l\<rparr>"
    using rc(5) by (simp add: string_loop_moved moved_def)
  have rs: "rest ((moved t (Suc ?n))\<lparr>line := ?l\<rparr>) = dropWhile strch r"
    by (simp add: rest_moved assms(1) dropWhile_eq_drop)
  show "tok_type (fst (scan_token t)) = STRING"
    by (simp add: st string_tok_def Let_def mkToken_def)
  show "rest (snd (scan_token t)) = tl (dropWhile strch r)"
  proof (cases "dropWhile strch r")
    case Nil
    then have e: "rest ((moved t (Suc ?n))\<lparr>line := ?l\<rparr>) = []"
      using rs by simp
    then have "isAtEnd ((moved t (Suc ?n))\<lparr>line := ?l\<rparr>)"
      by (simp only: isAtEnd_rest)
    then have "rest (snd (scan_token t)) = []"
      using e by (simp add: st string_tok_def Let_def sl)
    moreover have "tl (dropWhile strch r) = []"
      by (simp only: Nil list.sel)
    ultimately show ?thesis by simp
  next
    case (Cons q r')
    then have rq: "rest ((moved t (Suc ?n))\<lparr>line := ?l\<rparr>) = q # r'"
      using rs by simp
    note qc = rest_Cons [OF rq]
    show ?thesis
      using Cons qc by (simp add: st string_tok_def Let_def sl)
  qed
qed

lemma scan_token_outside:
  assumes "rest t = c # r"
  shows "length (filter is_newline_token [fst (scan_token t)])
           + newlines_outside_strings False (rest (snd (scan_token t)))
         = newlines_outside_strings False (c # r)"
proof -
  consider (ident) "isalpha c \<or> c = underscore"
    | (num) "\<not> (isalpha c \<or> c = underscore)" "isdigit c"
    | (str) "c = dquote"
    | (nl) "c = newline"
    | (op) "\<not> (isalpha c \<or> c = underscore)" "\<not> isdigit c" "c \<noteq> dquote" "c \<noteq> newline"
    by blast
  then show ?thesis
  proof cases
    case ident
    have "c \<noteq> newline" "c \<noteq> dquote"
      using ident by (auto simp: isalpha_def newline_def underscore_def dquote_def Let_def)
    then show ?thesis
      using scan_token_identifier [OF assms ident]
      by (auto simp: is_newline_token_def outside_dropWhile idch_not_newline idch_not_dquote)
  next
    case num
    have "c \<noteq> newline" "c \<noteq> dquote"
      using num by (auto simp: isdigit_def newline_def dquote_def Let_def)
    then show ?thesis
      using scan_token_number [OF assms num]
      by (auto simp: is_newline_token_def outside_dropWhile numch_not_newline numch_not_dquote)
  next
    case str
    then show ?thesis
      using scan_token_string [OF assms str] inside_dropWhile [of r]
      by (simp add: is_newline_token_def)
  next
    case nl
    then have "c \<noteq> dquote" by (simp add: newline_def dquote_def)
    then show ?thesis
      using scan_token_newline [OF assms nl] nl
      by (simp add: is_newline_token_def)
  next
    case op
    then show ?thesis
      using scan_token_operator [OF assms op]
      by (simp add: is_newline_token_def)
  qed
qed

lemma newline_tokens_loop_all:
  "length (filter is_newline_token (fst (tokenize_loop t tokens)))
     = length (filter is_newline_token tokens) + newlines_outside_strings False (rest t)"
proof (induction t tokens rule: tokenize_loop.induct)
  case (1 t tokens)
  let ?t1 = "skipWhitespace t"
  have cnt: "newlines_outside_strings False (rest ?t1) = newlines_outside_strings False (rest t)"
    by (simp add: rest_skipWhitespace outside_dropWhile ws_not_newline ws_not_dquote)
  show ?case
  proof (cases "isAtEnd t")
    case True
    then show ?thesis by (simp add: tokenize_loop_end isAtEnd_rest)
  next
    case False
    show ?thesis
    proof (cases "isAtEnd ?t1")
      case True
      then show ?thesis
        using False cnt by (simp add: tokenize_loop_ws_end isAtEnd_rest)
    next
      case nend: False
      then obtain c r where cr: "rest ?t1 = c # r"
        by (cases "rest ?t1") (auto simp: isAtEnd_rest)
      have "length (filter is_newline_token
            (fst (tokenize_loop (snd (scan_token ?t1)) (tokens @ [fst (scan_token ?t1)]))))
          = length (filter is_newline_token (tokens @ [fst (scan_token ?t1)]))
            + newlines_outside_strings False (rest (snd (scan_token ?t1)))"
        using "1.IH" [OF False refl nend] by simp
      then show ?thesis
        using scan_token_outside [OF cr] cnt cr False nend by (simp add: tokenize_loop_step)
    qed
  qed
qed

lemma rest_newTokenizer [simp]: "rest (newTokenizer src) = src"
  by (simp add: rest_def newTokenizer_def)

text \<open>
  Claim C5, as the code has it. \<open>tokenize\<close> does emit newline tokens: \<open>skipWhitespace\<close>
  stops at a newline and the loop pushes a \<open>NEWLINE\<close> token for it. For every source
  text, the token sequence holds exactly one \<open>NEWLINE\<close> token for each newline
  character that lies outside a string literal; a newline inside a literal only
  advances the line counter.
\<close>

theorem newline_tokens_count:
  "length (filter is_newline_token (tokenize src)) = newlines_outside_strings False src"
  using newline_tokens_loop_all [of "newTokenizer src" "[]"]
  by (simp add: tokenize_def Let_def is_newline_token_def mkToken_def)

text \<open>
  Three lines, the second a string literal that spans a newline: two \<open>NEWLINE\<close>
  tokens for three newline characters.
\<close>

theorem newline_tokens_count_witness:
  "length (filter is_newline_token
     (tokenize (''x'' @ [newline, dquote] @ ''a'' @ [newline] @ ''b'' @ [dquote, newline] @ ''y'')))
     = 2 \<and>
   count_list (''x'' @ [newline, dquote] @ ''a'' @ [newline] @ ''b'' @ [dquote, newline] @ ''y'')
     newline = 3"
  using newline_tokens_count
    [of "''x'' @ [newline, dquote] @ ''a'' @ [newline] @ ''b'' @ [dquote, newline] @ ''y''"]
  by (simp add: dquote_def newline_def)

text \<open>The source of two lines \<open>a\<close> and \<open>b\<close> yields a \<open>NEWLINE\<close> token between them.\<close>

theorem newline_token_counterexample:
  "map tok_type (tokenize (''a'' @ [newline] @ ''b'')) =
     [IDENTIFIER, NEWLINE, IDENTIFIER, EOF_TOKEN]"
  by code_simp

lemma takeWhile_all: "(\<And>x. x \<in> set xs \<Longrightarrow> P x) \<Longrightarrow> takeWhile P xs = xs"
  by (induction xs) auto

lemma string_tok_unterminated:
  assumes "rest t = s" and "dquote \<notin> set s"
  shows "string_tok t =
     (mkToken STRING ''Unterminated string'' (line t + int (count_list s newline))
        (column t + int (length s)),
      (moved t (length s))\<lparr>line := line t + int (count_list s newline)\<rparr>)"
proof -
  have tw: "takeWhile strch s = s"
    using assms(2) by (intro takeWhile_all) (auto simp: strch_def)
  have sl: "string_loop t = (moved t (length s))\<lparr>line := line t + int (count_list s newline)\<rparr>"
    by (simp add: string_loop_moved assms(1) tw)
  have "rest (string_loop t) = []"
    by (simp add: sl rest_moved assms(1))
  then have "isAtEnd (string_loop t)"
    by (simp add: isAtEnd_rest)
  then show ?thesis
    by (simp add: string_tok_def Let_def sl moved_def)
qed

text \<open>
  Claim C2, as the code has it. An unterminated string literal raises nothing:
  whenever the tokenizer stands at an opening quote and the rest of the input \<open>s\<close> holds
  no closing quote, the loop of \<open>tokenize\<close> pushes a \<open>STRING\<close> token whose text is
  \<open>Unterminated string\<close> and stops at the end of the input. The token's line and
  column are the tokenizer's at the end of the input (the line advanced once for each
  newline of \<open>s\<close>, the column once for the quote and for each character of \<open>s\<close>), not
  those of the opening quote.
\<close>

theorem unterminated_string_token:
  assumes "rest t = dquote # s" and "dquote \<notin> set s"
  shows "tokenize_loop t tokens =
     (tokens @ [mkToken STRING ''Unterminated string'' (line t + int (count_list s newline))
                  (column t + 1 + int (length s))],
      (moved t (1 + length s))\<lparr>line := line t + int (count_list s newline)\<rparr>)"
proof -
  note rc = rest_Cons [OF assms(1)]
  have nws: "\<not> ws dquote"
    by (simp add: ws_def isspace_def dquote_def)
  have sk: "skipWhitespace t = t"
    by (simp add: skipWhitespace_moved assms(1) nws)
  have cls: "\<not> (isalpha dquote \<or> dquote = underscore)" "\<not> isdigit dquote"
    by (simp_all add: isalpha_def isdigit_def dquote_def underscore_def)
  have st: "scan_token t = string_tok (moved t (Suc 0))"
    using rc cls by (simp add: scan_token_def Let_def)
  have tok: "string_tok (moved t (Suc 0)) =
     (mkToken STRING ''Unterminated string'' (line t + int (count_list s newline))
        (column t + 1 + int (length s)),
      (moved t (Suc (length s)))\<lparr>line := line t + int (count_list s newline)\<rparr>)"
    using string_tok_unterminated [OF rc(5) assms(2)] by (simp add: moved_def)
  have fin: "isAtEnd ((moved t (Suc (length s)))\<lparr>line := line t + int (count_list s newline)\<rparr>)"
    by (simp add: isAtEnd_rest rest_moved assms(1))
  have "tokenize_loop t tokens =
      tokenize_loop (snd (scan_token t)) (tokens @ [fst (scan_token t)])"
    using tokenize_loop_step [of t tokens] rc(2) by (simp add: sk)
  then show ?thesis
    using fin by (simp add: st tok tokenize_loop_end)
qed

theorem unterminated_string_token_witness:
  "rest (newTokenizer (dquote # ''abc'')) = dquote # ''abc'' \<and> dquote \<notin> set ''abc'' \<and>
   fst (tokenize_loop (newTokenizer (dquote # ''abc'')) []) =
     [mkToken STRING ''Unterminated string'' 1 5]"
  using unterminated_string_token [of "newTokenizer (dquote # ''abc'')" "''abc''" "[]"]
  by (simp add: dquote_def newTokenizer_def newline_def rest_def)

text \<open>
  The source \<open>"abc\<close>: \<open>tokenize\<close> returns two tokens, the first for the literal, at
  column 5; the opening quote is at column 1.
\<close>

theorem unterminated_string_counterexample:
  "tokenize (dquote # ''abc'') =
     [mkToken STRING ''Unterminated string'' 1 5, mkToken EOF_TOKEN [] 1 5]"
  by code_simp

section \<open>What the interpreter binds and prints\<close>

lemma executeTokens_body_binds:
  assumes "i < length tokens"
    and "variables (snd (executeTokens_body tokens i st)) n = Some v"
  shows "variables st n = Some v \<or> v \<in> tok_value ` set tokens"
proof (cases "variables (snd (executeTokens_body tokens i st)) = variables st")
  case True
  then show ?thesis using assms(2) by simp
next
  case False
  then have decl: "i + 4 < length tokens"
    and eq: "variables (snd (executeTokens_body tokens i st)) =
      (variables st)(tok_value (tokens ! (i + 1)) \<mapsto> tok_value (tokens ! (i + 3)))"
    by (auto simp: executeTokens_body_def handleVariableDeclaration_def
        handleModelDeclaration_def handleTrainStatement_def handlePrintStatement_def Let_def
        split: if_splits)
  have "tok_value (tokens ! (i + 3)) \<in> tok_value ` set tokens"
    using decl by simp
  then show ?thesis
    using assms(2) by (auto simp: eq split: if_splits)
qed

lemma executeTokens_loop_stop: "\<not> i < length tokens \<Longrightarrow> executeTokens_loop tokens i st = st"
  by (subst executeTokens_loop.simps) simp

lemma executeTokens_loop_step:
  "i < length tokens \<Longrightarrow>
   executeTokens_loop tokens i st =
     executeTokens_loop tokens (fst (executeTokens_body tokens i st) + 1)
       (snd (executeTokens_body tokens i st))"
  by (subst executeTokens_loop.simps) simp

lemma executeTokens_loop_binds:
  "variables (executeTokens_loop tokens i st) n = Some v \<Longrightarrow>
   variables st n = Some v \<or> v \<in> tok_value ` set tokens"
proof (induction tokens i st rule: executeTokens_loop.induct)
  case (1 tokens i st)
  show ?case
  proof (cases "i < length tokens")
    case True
    then have "variables (snd (executeTokens_body tokens i st)) n = Some v
        \<or> v \<in> tok_value ` set tokens"
      using "1.IH" "1.prems" by (simp add: executeTokens_loop_step)
    then show ?thesis
      using executeTokens_body_binds [OF True] by blast
  next
    case False
    then show ?thesis using "1.prems" by (simp add: executeTokens_loop_stop)
  qed
qed

text \<open>
  Claim C1, as the code has it. The interpreter evaluates no expression: a \<open>var\<close>
  declaration stores the text of the one token that follows \<open>=\<close>. Executing
  \<open>var x = 2 + 3 * 4; print(x);\<close> on a new interpreter leaves \<open>x\<close> bound to the text
  \<open>2\<close>, and for every program and every interpreter, each binding found after
  \<open>execute\<close> was there before or is the text of one token of the program.
\<close>

theorem declaration_binds_token_text:
  "variables (execute precedence_program newInterpreter) ''x'' = Some ''2'' \<and>
   (variables (execute src st) n = Some v \<longrightarrow>
      variables st n = Some v \<or> v \<in> tok_value ` set (tokenize src))"
proof
  show "variables (execute precedence_program newInterpreter) ''x'' = Some ''2''"
    unfolding precedence_program_def by code_simp
next
  show "variables (execute src st) n = Some v \<longrightarrow>
      variables st n = Some v \<or> v \<in> tok_value ` set (tokenize src)"
  proof (cases "src = []")
    case True
    then show ?thesis by (simp add: execute_def)
  next
    case False
    show ?thesis
    proof
      assume "variables (execute src st) n = Some v"
      then show "variables st n = Some v \<or> v \<in> tok_value ` set (tokenize src)"
        using False
          executeTokens_loop_binds [of "tokenize src" 0 "st" n v]
          executeTokens_loop_binds [of "tokenize src" 0 "st\<lparr>cout := cout st @ CYAN @ ''=== Debug: Tokens ==='' @ RESET @ endl
                              @ debugTokens (tokenize src) @ endl\<rparr>" n v]
        by (auto simp: execute_def executeTokens_def Let_def split: if_splits)
    qed
  qed
qed

theorem declaration_binds_token_text_witness:
  "variables (execute precedence_program newInterpreter) ''x'' = Some ''2'' \<and>
   ''2'' \<in> tok_value ` set (tokenize precedence_program) \<and>
   ''14'' \<notin> tok_value ` set (tokenize precedence_program) \<and>
   variables (execute precedence_program newInterpreter) ''x'' \<noteq> Some ''14''"
proof -
  have tk: "map tok_value (tokenize precedence_program) =
      [''var'', ''x'', ''='', ''2'', ''+'', ''3'', ''*'', ''4'', '';'', ''print'', ''('', ''x'',
       '')'', '';'', '''']"
    unfolding precedence_program_def by code_simp
  have vs: "tok_value ` set (tokenize precedence_program) = set (map tok_value (tokenize precedence_program))"
    by simp
  have x: "variables (execute precedence_program newInterpreter) ''x'' = Some ''2''"
    using declaration_binds_token_text by blast
  have "variables newInterpreter ''x'' = None"
    by (simp add: newInterpreter_def)
  then have "''2'' \<in> tok_value ` set (tokenize precedence_program)"
    using declaration_binds_token_text [of precedence_program newInterpreter "''x''" "''2''"] x by simp
  moreover have "''14'' \<notin> tok_value ` set (tokenize precedence_program)"
    unfolding vs tk by simp
  ultimately show ?thesis using x by simp
qed

text \<open>
  On the program of the claim, \<open>x\<close> holds \<open>2\<close>, and what is written is the
  declaration's message and then an opening parenthesis; \<open>14\<close> is written nowhere.
\<close>

theorem precedence_counterexample:
  "variables (execute ''var x = 2 + 3 * 4; print(x);'' newInterpreter) ''x'' = Some ''2'' \<and>
   cout (execute ''var x = 2 + 3 * 4; print(x);'' newInterpreter) =
     GREEN @ check_mark @ '' Variable '' @ [squote] @ ''x'' @ [squote] @ '' = 2'' @ RESET @ endl
       @ ''('' @ endl"
  by code_simp

lemma substr_rest: "substr (source t) (current t) n = take n (rest t)"
  by (simp add: substr_def rest_def)

lemma scan_token_identifier_tok:
  assumes "rest t = c # r" and "isalpha c \<or> c = underscore"
  shows "scan_token t =
     (mkToken (if c # takeWhile idch r \<in> set keywords_tbl then KEYWORD else IDENTIFIER)
        (c # takeWhile idch r) (line t) (column t),
      moved t (Suc (length (takeWhile idch r))))"
proof -
  note rc = rest_Cons [OF assms(1)]
  let ?n = "length (takeWhile idch r)"
  have st: "scan_token t = identifier_tok (moved t (Suc 0))"
    using assms(2) rc by (simp add: scan_token_def Let_def)
  have lp: "identifier_loop (moved t (Suc 0)) = moved t (Suc ?n)"
    using rc(5) by (simp add: identifier_loop_moved)
  have tx: "substr (source t) (current t) (Suc ?n) = c # takeWhile idch r"
    by (simp add: substr_rest assms(1) takeWhile_eq_take [symmetric])
  show ?thesis
    unfolding st identifier_tok_def Let_def lp
    using tx by (simp add: moved_def)
qed

lemma tokenize_print_name:
  assumes "is_identifier n"
  shows "tokenize (''print '' @ n) =
     [mkToken IDENTIFIER ''print'' 1 1,
      mkToken (if n \<in> set keywords_tbl then KEYWORD else IDENTIFIER) n 1 7,
      mkToken EOF_TOKEN [] 1 (7 + int (length n))]"
proof -
  obtain c cs where n: "n = c # cs" and c: "isalpha c \<or> c = underscore" and cs: "list_all idch cs"
    using assms by (cases n) (auto simp: is_identifier_def)
  define ty where "ty = (if n \<in> set keywords_tbl then KEYWORD else IDENTIFIER)"
  define t0 where "t0 = newTokenizer (''print '' @ n)"
  define tok0 where "tok0 = mkToken IDENTIFIER ''print'' 1 1"
  define tok1 where "tok1 = mkToken ty n 1 7"
  have lc: "line t0 = 1" "column t0 = 1"
    by (simp_all add: t0_def newTokenizer_def)
  have nk: "''print'' \<notin> set keywords_tbl"
    by (simp add: keywords_tbl_def)
  have cws: "\<not> ws c"
    using c by (auto simp: ws_def isspace_def isalpha_def underscore_def Let_def)
  have r0: "rest t0 = CHR ''p'' # (''rint '' @ n)"
    by (simp add: t0_def)
  have e0: "\<not> isAtEnd t0"
    by (simp add: isAtEnd_rest r0)
  have s0: "skipWhitespace t0 = t0"
    by (simp add: skipWhitespace_moved r0 ws_def isspace_def)
  have tw0: "takeWhile idch (''rint '' @ n) = ''rint''"
    by (simp add: idch_def isalnum_def isalpha_def isdigit_def underscore_def)
  have p: "isalpha CHR ''p'' \<or> CHR ''p'' = underscore"
    by (simp add: isalpha_def)
  have sc0: "scan_token t0 = (tok0, moved t0 5)"
    unfolding scan_token_identifier_tok [OF r0 p] tw0 tok0_def
    using nk by (simp add: lc eval_nat_numeral)
  have r1: "rest (moved t0 5) = CHR '' '' # n"
    by (simp add: rest_moved r0)
  have e1: "\<not> isAtEnd (moved t0 5)"
    by (simp add: isAtEnd_rest r1)
  have wsp: "ws CHR '' ''"
    by (simp add: ws_def isspace_def newline_def)
  have tw1: "takeWhile ws (CHR '' '' # n) = [CHR '' '']"
    using cws wsp by (simp add: n)
  have s1: "skipWhitespace (moved t0 5) = moved t0 6"
    unfolding skipWhitespace_moved r1 tw1 by simp
  have r2: "rest (moved t0 6) = c # cs"
    by (simp add: rest_moved r0 n)
  have e2: "\<not> isAtEnd (moved t0 6)"
    by (simp add: isAtEnd_rest r2)
  have tw2: "takeWhile idch cs = cs"
    using cs by (simp add: list_all_iff)
  have sc2: "scan_token (moved t0 6) = (tok1, moved t0 (6 + length n))"
    unfolding scan_token_identifier_tok [OF r2 c] tw2 tok1_def ty_def
    by (simp add: n lc moved_def)
  have e3: "isAtEnd (moved t0 (6 + length n))"
    by (simp add: isAtEnd_rest rest_moved r0)
  have "tokenize_loop t0 [] = tokenize_loop (moved t0 5) [tok0]"
    using tokenize_loop_step [of t0 "[]"] e0 unfolding s0 sc0 by simp
  also have "\<dots> = tokenize_loop (moved t0 (6 + length n)) [tok0, tok1]"
    using tokenize_loop_step [of "moved t0 5" "[tok0]"] e1 e2 unfolding s1 sc2 by simp
  also have "\<dots> = ([tok0, tok1], moved t0 (6 + length n))"
    using e3 by (rule tokenize_loop_end)
  finally have "tokenize_loop (newTokenizer (''print '' @ n)) []
      = ([tok0, tok1], moved t0 (6 + length n))"
    by (simp only: t0_def)
  then show ?thesis
    unfolding tokenize_def Let_def tok0_def tok1_def ty_def
    by (simp add: moved_def lc)
qed

lemma executeTokens_print:
  assumes "hd n \<noteq> dquote" and "variables st n = None"
  shows "executeTokens
      [mkToken IDENTIFIER ''print'' l1 c1, mkToken ty n l2 c2, mkToken EOF_TOKEN [] l3 c3] st
    = st\<lparr>cout := cout st @ n @ endl\<rparr>"
proof -
  define ts where
    "ts = [mkToken IDENTIFIER ''print'' l1 c1, mkToken ty n l2 c2, mkToken EOF_TOKEN [] l3 c3]"
  define st' where "st' = st\<lparr>cout := cout st @ n @ endl\<rparr>"
  have len: "length ts = Suc (Suc (Suc 0))"
    by (simp add: ts_def)
  have b0: "executeTokens_body ts 0 st = (Suc 0, st')"
    using assms
    by (simp add: executeTokens_body_def handlePrintStatement_def mkToken_def Let_def
        ts_def st'_def)
  have b2: "executeTokens_body ts (Suc (Suc 0)) st' = (Suc (Suc 0), st')"
    by (simp add: executeTokens_body_def mkToken_def Let_def ts_def)
  have s3: "executeTokens_loop ts (Suc (Suc (Suc 0))) st' = st'"
    by (subst executeTokens_loop.simps) (simp add: len)
  have s2: "executeTokens_loop ts (Suc (Suc 0)) st' = st'"
    by (subst executeTokens_loop.simps) (simp add: len b2 s3)
  have "executeTokens_loop ts 0 st = st'"
    by (subst executeTokens_loop.simps) (simp add: len b0 s2)
  then show ?thesis
    by (simp add: executeTokens_def ts_def st'_def)
qed

lemma execute_print_name:
  assumes "is_identifier n" and "variables st n = None" and "\<not> debugMode st"
  shows "execute (''print '' @ n) st = st\<lparr>cout := cout st @ n @ endl\<rparr>"
proof -
  have nq: "hd n \<noteq> dquote"
    using assms(1) by (auto simp: is_identifier_def isalpha_def dquote_def underscore_def Let_def)
  show ?thesis
    unfolding execute_def Let_def tokenize_print_name [OF assms(1)]
    using assms(3) executeTokens_print [OF nq assms(2)] by simp
qed

lemma env_get_NameError:
  "env_get env name = Inl NameError \<longleftrightarrow> defined_nowhere env name"
proof (induction env name rule: env_get.induct)
  case (1 vs cs nm d p name)
  show ?case
  proof (cases "vs name")
    case None
    then show ?thesis
      using "1.IH" by (cases p) simp_all
  next
    case (Some v)
    then show ?thesis by simp
  qed
qed

text \<open>
  Claim C4, as the code has it. Reading a name that no scope of the Environment chain
  defines fails with a \<open>NameError\<close>: that is \<open>Environment::get\<close>. The interpreter
  of main.cpp does not read names through an Environment, though, and raises nothing:
  for every name \<open>n\<close> that is not a key of its map \<open>variables\<close>, executing the
  source \<open>print n\<close> (debug mode off) writes the name's own text and a newline, and
  changes nothing else.
\<close>

theorem undefined_name_read:
  "(defined_nowhere env name \<longrightarrow> env_get env name = Inl NameError) \<and>
   (is_identifier n \<and> variables st n = None \<and> \<not> debugMode st \<longrightarrow>
      execute (''print '' @ n) st = st\<lparr>cout := cout st @ n @ endl\<rparr>)"
  using env_get_NameError [of env name] execute_print_name [of n st] by blast

text \<open>
  The name \<open>total\<close>, read in a block scope under the empty global scope, and printed
  by a new interpreter.
\<close>

theorem undefined_name_read_witness:
  "defined_nowhere (newEnvironment (Some globalScope) ''block'') ''total'' \<and>
   env_get (newEnvironment (Some globalScope) ''block'') ''total'' = Inl NameError \<and>
   is_identifier ''total'' \<and> variables newInterpreter ''total'' = None \<and>
   \<not> debugMode newInterpreter \<and>
   cout (execute ''print total'' newInterpreter) = ''total'' @ endl"
proof -
  have d: "defined_nowhere (newEnvironment (Some globalScope) ''block'') ''total''"
    by (simp add: newEnvironment_def globalScope_def)
  have i: "is_identifier ''total''"
    by (simp add: is_identifier_def isalpha_def idch_def isalnum_def)
  have v: "variables newInterpreter ''total'' = None" "\<not> debugMode newInterpreter"
    "cout newInterpreter = []"
    by (simp_all add: newInterpreter_def)
  show ?thesis
    using undefined_name_read [of "newEnvironment (Some globalScope) ''block''" "''total''"
        "''total''" newInterpreter] d i v
    by simp
qed

text \<open>Printing the undefined name \<open>y\<close> on a new interpreter writes \<open>y\<close>.\<close>

theorem print_undefined_name_counterexample:
  "variables newInterpreter ''y'' = None \<and>
   cout (execute ''print y'' newInterpreter) = ''y'' @ endl"
proof
  show "variables newInterpreter ''y'' = None"
    by (simp add: newInterpreter_def)
next
  show "cout (execute ''print y'' newInterpreter) = ''y'' @ endl"
    by code_simp
qed

section \<open>Constant protection in an environment\<close>

text \<open>
  Claim C3. For every environment: once \<open>defineConstant\<close> has bound \<open>x\<close>, an
  \<open>assign\<close> to \<open>x\<close> fails with \<open>ConstAssignError\<close> and \<open>get\<close> still returns the
  value defined; once \<open>define\<close> has bound \<open>x\<close> as a non-constant, an \<open>assign\<close> to
  \<open>x\<close> succeeds and \<open>get\<close> then returns the value assigned.
\<close>

theorem constant_protection:
  "(defineConstant env x v = Inr env1 \<longrightarrow>
      env_assign env1 x w = Inl ConstAssignError \<and> env_get env1 x = Inr v) \<and>
   (env_define env x v False = Inr env2 \<longrightarrow>
      (\<exists>env3. env_assign env2 x w = Inr env3 \<and> env_get env3 x = Inr w))"
  by (cases env) (auto simp: defineConstant_def split: if_splits)

theorem constant_protection_witness:
  "defineConstant globalScope ''x'' 1 =
     Inr (Environment [''x'' \<mapsto> 1] {''x''} ''global'' 0 None) \<and>
   env_assign (Environment [''x'' \<mapsto> 1] {''x''} ''global'' 0 None) ''x'' 2 = Inl ConstAssignError \<and>
   env_get (Environment [''x'' \<mapsto> 1] {''x''} ''global'' 0 None) ''x'' = Inr 1 \<and>
   env_define globalScope ''x'' 1 False =
     Inr (Environment [''x'' \<mapsto> 1] {} ''global'' 0 None) \<and>
   env_assign (Environment [''x'' \<mapsto> 1] {} ''global'' 0 None) ''x'' 2 =
     Inr (Environment [''x'' \<mapsto> 2] {} ''global'' 0 None) \<and>
   env_get (Environment [''x'' \<mapsto> 2] {} ''global'' 0 None) ''x'' = Inr 2"
  using constant_protection [of globalScope "''x''" 1
      "Environment [''x'' \<mapsto> 1] {''x''} ''global'' 0 None" 2
      "Environment [''x'' \<mapsto> 1] {} ''global'' 0 None"]
  by (simp add: globalScope_def newEnvironment_def defineConstant_def)

section \<open>Transposing a tensor twice\<close>

lemma indicesOf_valid: "k < prod_list ds \<Longrightarrow> valid_indices ds (indicesOf ds k)"
proof (induction ds arbitrary: k)
  case Nil
  then show ?case by (simp add: valid_indices_def)
next
  case (Cons d ds)
  have pos: "0 < prod_list ds"
    using Cons.prems by (cases "prod_list ds = 0") auto
  have "k div prod_list ds < d"
    using Cons.prems pos by (simp add: less_mult_imp_div_less mult.commute)
  moreover have "valid_indices ds (indicesOf ds (k mod prod_list ds))"
    using Cons.IH pos by simp
  ultimately show ?case by (simp add: valid_indices_def)
qed

lemma calculateIndex_indicesOf: "k < prod_list ds \<Longrightarrow> calculateIndex ds (indicesOf ds k) = k"
proof (induction ds arbitrary: k)
  case Nil
  then show ?case by simp
next
  case (Cons d ds)
  have pos: "0 < prod_list ds"
    using Cons.prems by (cases "prod_list ds = 0") auto
  then show ?case using Cons.IH [of "k mod prod_list ds"] by simp
qed

lemma calculateIndex_bound:
  "valid_indices ds is \<Longrightarrow> calculateIndex ds is < prod_list ds"
  unfolding valid_indices_def
proof (induction "is" ds rule: list_all2_induct)
  case Nil
  then show ?case by simp
next
  case (Cons i "is" d ds)
  have "i * prod_list ds + calculateIndex ds is < i * prod_list ds + prod_list ds"
    using Cons.IH by simp
  also have "\<dots> = (i + 1) * prod_list ds" by simp
  also have "\<dots> \<le> d * prod_list ds"
    using Cons.hyps(1) by (intro mult_le_mono1) simp
  finally show ?case by simp
qed

lemma indicesOf_calculateIndex:
  "valid_indices ds is \<Longrightarrow> indicesOf ds (calculateIndex ds is) = is"
  unfolding valid_indices_def
proof (induction "is" ds rule: list_all2_induct)
  case Nil
  then show ?case by simp
next
  case (Cons i "is" d ds)
  have b: "calculateIndex ds is < prod_list ds"
    using Cons.hyps(2) calculateIndex_bound by (simp add: valid_indices_def)
  then show ?case using Cons.IH by simp
qed

lemma valid_indices_rev: "valid_indices ds is \<Longrightarrow> valid_indices (rev ds) (rev is)"
  by (simp add: valid_indices_def)

text \<open>
  Claim C7. For every tensor \<open>t\<close> whose flat storage has the length its shape
  demands, transposing twice gives back the shape of \<open>t\<close> and the elements of \<open>t\<close>,
  one for one.
\<close>

theorem transpose_involution:
  assumes "tensor_invariant t"
  shows "shape (transpose_tensor (transpose_tensor t)) = shape t \<and>
         data (transpose_tensor (transpose_tensor t)) = data t"
proof
  show "shape (transpose_tensor (transpose_tensor t)) = shape t"
    by (simp add: transpose_tensor_def)
next
  let ?S = "shape t"
  let ?n = "prod_list ?S"
  have len: "length (data t) = ?n"
    using assms by (simp add: tensor_invariant_def)
  have step: "data (transpose_tensor t) ! calculateIndex (rev ?S) (rev (indicesOf ?S k)) = data t ! k"
    if k: "k < ?n" for k
  proof -
    let ?j = "calculateIndex (rev ?S) (rev (indicesOf ?S k))"
    have v: "valid_indices (rev ?S) (rev (indicesOf ?S k))"
      using k by (intro valid_indices_rev indicesOf_valid)
    then have j: "?j < ?n"
      using calculateIndex_bound [OF v] by simp
    have "data (transpose_tensor t) ! ?j = data t ! calculateIndex ?S (rev (indicesOf (rev ?S) ?j))"
      using j by (simp add: transpose_tensor_def)
    also have "\<dots> = data t ! calculateIndex ?S (indicesOf ?S k)"
      by (simp add: indicesOf_calculateIndex [OF v])
    also have "\<dots> = data t ! k"
      using k by (simp add: calculateIndex_indicesOf)
    finally show ?thesis .
  qed
  have "data (transpose_tensor (transpose_tensor t)) = map (\<lambda>k. data t ! k) [0..<?n]"
    using step by (simp add: transpose_tensor_def [of "transpose_tensor t"])
      (simp add: transpose_tensor_def)
  also have "\<dots> = data t"
    using len map_nth [of "data t"] by simp
  finally show "data (transpose_tensor (transpose_tensor t)) = data t" .
qed

theorem transpose_involution_witness:
  "tensor_invariant matrix_1234 \<and>
   transpose_tensor matrix_1234 = \<lparr>data = [1, 3, 2, 4], shape = [2, 2], totalSize = 4\<rparr> \<and>
   shape (transpose_tensor (transpose_tensor matrix_1234)) = [2, 2] \<and>
   data (transpose_tensor (transpose_tensor matrix_1234)) = [1, 2, 3, 4]"
proof -
  have inv: "tensor_invariant matrix_1234"
    by (simp add: tensor_invariant_def matrix_1234_def)
  have tr: "transpose_tensor matrix_1234 = \<lparr>data = [1, 3, 2, 4], shape = [2, 2], totalSize = 4\<rparr>"
    by code_simp
  show ?thesis
    using transpose_involution [OF inv] inv tr by (simp add: matrix_1234_def)
qed

section \<open>Copies of a value\<close>

text \<open>
  Claim C9. Copying is variant-dependent. After \<open>dst = src\<close> for an array or object,
  a mutation of the copy changes what \<open>dst\<close> holds and leaves what \<open>src\<close> holds as it
  was. After \<open>dst = src\<close> for a function or tensor both hold the same allocation, and
  an in-place operation on the tensor through \<open>dst\<close> is what \<open>src\<close> reads too.
\<close>

theorem copy_is_variant_dependent:
  assumes "src \<noteq> dst"
  shows "(holders s src = Some v \<and> is_container v \<longrightarrow>
            holders (mutate_contents dst f (copy_assign dst src s)) dst = Some (f v) \<and>
            holders (mutate_contents dst f (copy_assign dst src s)) src = Some v) \<and>
         (holders s src = Some (VFunction p) \<longrightarrow>
            holders (copy_assign dst src s) dst = Some (VFunction p) \<and>
            holders (copy_assign dst src s) src = Some (VFunction p)) \<and>
         (holders s src = Some (VTensor p) \<and> tensors s p = Some t \<longrightarrow>
            holders (copy_assign dst src s) dst = Some (VTensor p) \<and>
            read_tensor (mutate_tensor dst g (copy_assign dst src s)) src = Some (g t) \<and>
            read_tensor (mutate_tensor dst g (copy_assign dst src s)) dst = Some (g t))"
  using assms
  by (auto simp: copy_assign_def mutate_contents_def mutate_tensor_def read_tensor_def)

theorem copy_is_variant_dependent_witness:
  "holders (mutate_contents ''b'' (\<lambda>v. VArray []) (copy_assign ''b'' ''a'' example_store)) ''b''
     = Some (VArray []) \<and>
   holders (mutate_contents ''b'' (\<lambda>v. VArray []) (copy_assign ''b'' ''a'' example_store)) ''a''
     = Some (VArray [VNumber 1, VNumber 2]) \<and>
   read_tensor example_store ''t'' = Some matrix_1234 \<and>
   read_tensor (mutate_tensor ''u'' (fill 0) (copy_assign ''u'' ''t'' example_store)) ''t''
     = Some \<lparr>data = [0, 0, 0, 0], shape = [2, 2], totalSize = 4\<rparr>"
proof -
  have ne: "''a'' \<noteq> ''b''" "''t'' \<noteq> ''u''"
    by simp_all
  have a: "holders example_store ''a'' = Some (VArray [VNumber 1, VNumber 2])"
    and t: "holders example_store ''t'' = Some (VTensor 0)"
    and h: "tensors example_store 0 = Some matrix_1234"
    by (simp_all add: example_store_def)
  have c: "is_container (VArray [VNumber 1, VNumber 2 :: int Value])"
    by (simp add: is_container_def)
  have f: "fill 0 matrix_1234 = \<lparr>data = [0, 0, 0, 0], shape = [2, 2], totalSize = 4\<rparr>"
    by (simp add: fill_def matrix_1234_def)
  show ?thesis
    using copy_is_variant_dependent [OF ne(1), of example_store "VArray [VNumber 1, VNumber 2]"
        "\<lambda>v. VArray []"]
      copy_is_variant_dependent [OF ne(2), of example_store _ _ 0 matrix_1234 "fill 0"]
      a t h c f
    by (simp add: read_tensor_def)
qed

end
